theory Spec2Isabelle
  imports Main "HOL-Library.Multiset"
begin

section \<open>ChessCrypt: an S-box permuted by three wandering chess pieces\<close>

text \<open>
  A shallow embedding of \<^verbatim>\<open>src/cc.py\<close>. Python integers are \<^typ>\<open>int\<close>; HOL's
  \<open>div\<close> and \<open>mod\<close> on \<^typ>\<open>int\<close> round towards minus infinity, as Python's
  \<^verbatim>\<open>//\<close> and \<^verbatim>\<open>%\<close> do, and the one difference (a zero divisor raises in
  Python) is written out. The numpy table is a list of rows. Every exception the code
  can raise is a value of \<open>error\<close>.
\<close>

subsection \<open>Errors, positions, the object\<close>

datatype error = IndexError | ZeroDivisionError | ValueError

type_synonym pos = "int \<times> int"

record chesscrypt =
  box_size :: int
  sbox :: "int list list"
  king_pos :: pos
  knight_pos :: pos
  bishop_pos :: pos

subsection \<open>The numpy and Python primitives the class uses\<close>

text \<open>\<^verbatim>\<open>np.arange(m)\<close>: the integers \<open>0, ..., m - 1\<close>, none when \<open>m \<le> 0\<close>.\<close>

definition np_arange :: "int \<Rightarrow> int list" where
  "np_arange m = [0..m - 1]"

text \<open>Cutting a flat array into \<open>r\<close> rows of \<open>c\<close> cells, in row-major order.\<close>

fun rows_of :: "nat \<Rightarrow> nat \<Rightarrow> 'a list \<Rightarrow> 'a list list" where
  "rows_of 0 c xs = []"
| "rows_of (Suc r) c xs = take c xs # rows_of r c (drop c xs)"

text \<open>
  \<^verbatim>\<open>a.reshape(n, n)\<close>, both dimensions being the same number as in the constructor:
  a negative \<open>n\<close> is refused, and so is a size that is not \<open>n * n\<close>.
\<close>

definition np_reshape_square :: "int list \<Rightarrow> int \<Rightarrow> error + int list list" where
  "np_reshape_square xs n =
     (if n < 0 \<or> int (length xs) \<noteq> n * n then Inl ValueError
      else Inr (rows_of (nat n) (nat n) xs))"

text \<open>
  An index into a sequence of \<open>n\<close> elements, for Python lists and numpy axes alike:
  \<open>-n, ..., -1\<close> count from the end, anything outside \<open>[-n, n)\<close> raises IndexError.
\<close>

definition norm_index :: "nat \<Rightarrow> int \<Rightarrow> nat option" where
  "norm_index n i =
     (if 0 \<le> i \<and> i < int n then Some (nat i)
      else if - int n \<le> i \<and> i < 0 then Some (nat (i + int n))
      else None)"

definition py_index :: "'a list \<Rightarrow> int \<Rightarrow> error + 'a" where
  "py_index xs i =
     (case norm_index (length xs) i of
        None \<Rightarrow> Inl IndexError
      | Some j \<Rightarrow> Inr (xs ! j))"

text \<open>\<^verbatim>\<open>sbox[r][c]\<close> as an expression: the row first, then the cell in it.\<close>

definition read_cell :: "int list list \<Rightarrow> pos \<Rightarrow> error + int" where
  "read_cell t p =
     (case norm_index (length t) (fst p) of
        None \<Rightarrow> Inl IndexError
      | Some r \<Rightarrow>
          (case norm_index (length (t ! r)) (snd p) of
             None \<Rightarrow> Inl IndexError
           | Some c \<Rightarrow> Inr (t ! r ! c)))"

text \<open>\<^verbatim>\<open>sbox[r][c] = v\<close> as an assignment target.\<close>

definition write_cell :: "int list list \<Rightarrow> pos \<Rightarrow> int \<Rightarrow> error + int list list" where
  "write_cell t p v =
     (case norm_index (length t) (fst p) of
        None \<Rightarrow> Inl IndexError
      | Some r \<Rightarrow>
          (case norm_index (length (t ! r)) (snd p) of
             None \<Rightarrow> Inl IndexError
           | Some c \<Rightarrow> Inr (t[r := (t ! r)[c := v]])))"

text \<open>\<^verbatim>\<open>a % b\<close>.\<close>

definition py_mod :: "int \<Rightarrow> int \<Rightarrow> error + int" where
  "py_mod a b = (if b = 0 then Inl ZeroDivisionError else Inr (a mod b))"

subsection \<open>The constructor\<close>

definition init :: "int \<Rightarrow> error + chesscrypt" where
  "init bs =
     (case np_reshape_square (np_arange (bs * bs)) bs of
        Inl e \<Rightarrow> Inl e
      | Inr t \<Rightarrow>
          Inr \<lparr>box_size = bs, sbox = t,
               king_pos = (0, 0),
               knight_pos = (bs div 2, bs div 2),
               bishop_pos = (bs - 1, bs - 1)\<rparr>)"

subsection \<open>Move generators\<close>

text \<open>
  The comprehension \<^verbatim>\<open>[(x % box_size, y % box_size) for x, y in moves]\<close>; it raises at
  its first element when \<open>box_size\<close> is zero.
\<close>

fun wrap_all :: "int \<Rightarrow> pos list \<Rightarrow> error + pos list" where
  "wrap_all bs [] = Inr []"
| "wrap_all bs (m # ms) =
     (case py_mod (fst m) bs of
        Inl e \<Rightarrow> Inl e
      | Inr x \<Rightarrow>
          (case py_mod (snd m) bs of
             Inl e \<Rightarrow> Inl e
           | Inr y \<Rightarrow>
               (case wrap_all bs ms of
                  Inl e \<Rightarrow> Inl e
                | Inr r \<Rightarrow> Inr ((x, y) # r))))"

text \<open>The local list \<^verbatim>\<open>moves\<close> of \<^verbatim>\<open>_get_knight_moves\<close>, before wrapping.\<close>

definition knight_targets :: "pos \<Rightarrow> pos list" where
  "knight_targets p =
     [(fst p + 2, snd p + 1), (fst p + 2, snd p - 1),
      (fst p - 2, snd p + 1), (fst p - 2, snd p - 1),
      (fst p + 1, snd p + 2), (fst p + 1, snd p - 2),
      (fst p - 1, snd p + 2), (fst p - 1, snd p - 2)]"

definition get_knight_moves :: "int \<Rightarrow> pos \<Rightarrow> error + pos list" where
  "get_knight_moves bs p = wrap_all bs (knight_targets p)"

text \<open>
  The two nested loops of \<^verbatim>\<open>_get_king_moves\<close> over \<open>dx\<close> and \<open>dy\<close>, skipping
  \<open>(0, 0)\<close>; each target is wrapped as it is appended.
\<close>

definition king_targets :: "pos \<Rightarrow> pos list" where
  "king_targets p =
     [(fst p + dx, snd p + dy). dx \<leftarrow> [-1, 0, 1], dy \<leftarrow> [-1, 0, 1], \<not> (dx = 0 \<and> dy = 0)]"

definition get_king_moves :: "int \<Rightarrow> pos \<Rightarrow> error + pos list" where
  "get_king_moves bs p = wrap_all bs (king_targets p)"

text \<open>
  The inner loop of \<^verbatim>\<open>_get_bishop_moves\<close>: \<open>k\<close> more steps in direction \<open>d\<close> from the
  current point, each step taken from the point the previous step reached. The loop
  runs \<^verbatim>\<open>range(box_size)\<close> times, so its body is only reached with a positive
  \<open>box_size\<close> and its \<^verbatim>\<open>%\<close> never raises.
\<close>

fun bishop_walk :: "nat \<Rightarrow> int \<Rightarrow> pos \<Rightarrow> pos \<Rightarrow> pos list" where
  "bishop_walk 0 bs d cur = []"
| "bishop_walk (Suc k) bs d cur =
     (let curr_x = (fst cur + fst d) mod bs;
          curr_y = (snd cur + snd d) mod bs
      in (curr_x, curr_y) # bishop_walk k bs d (curr_x, curr_y))"

definition bishop_directions :: "pos list" where
  "bishop_directions = [(1, 1), (1, -1), (-1, 1), (-1, -1)]"

definition get_bishop_moves :: "int \<Rightarrow> pos \<Rightarrow> pos list" where
  "get_bishop_moves bs p =
     concat (map (\<lambda>direction. bishop_walk (nat bs) bs direction p) bishop_directions)"

subsection \<open>Swapping two cells\<close>

text \<open>
  The tuple assignment of \<^verbatim>\<open>_swap_positions\<close>: the right-hand side is evaluated first
  (the cell at \<open>pos2\<close>, then the cell at \<open>pos1\<close>; both are scalars, so copies), then
  the targets are assigned from left to right.
\<close>

definition swap_positions :: "chesscrypt \<Rightarrow> pos \<Rightarrow> pos \<Rightarrow> error + chesscrypt" where
  "swap_positions s pos1 pos2 =
     (case read_cell (sbox s) pos2 of
        Inl e \<Rightarrow> Inl e
      | Inr v2 \<Rightarrow>
          (case read_cell (sbox s) pos1 of
             Inl e \<Rightarrow> Inl e
           | Inr v1 \<Rightarrow>
               (case write_cell (sbox s) pos1 v2 of
                  Inl e \<Rightarrow> Inl e
                | Inr t1 \<Rightarrow>
                    (case write_cell t1 pos2 v1 of
                       Inl e \<Rightarrow> Inl e
                     | Inr t2 \<Rightarrow> Inr (s\<lparr>sbox := t2\<rparr>)))))"

subsection \<open>The random source\<close>

text \<open>
  \<^verbatim>\<open>np.random\<close> is global state outside the class. It is modelled as a function
  giving, for the number of the call and the bound passed, the integer that call
  returns; the number of calls made so far is threaded beside the object.
  \<^verbatim>\<open>np.random.randint(high)\<close> raises ValueError when \<open>high \<le> 0\<close>.
\<close>

type_synonym rand_source = "nat \<Rightarrow> int \<Rightarrow> int"

definition randint :: "rand_source \<Rightarrow> nat \<Rightarrow> int \<Rightarrow> error + int" where
  "randint src t high = (if high \<le> 0 then Inl ValueError else Inr (src t high))"

text \<open>The contract of the generator: a draw lies in \<open>[0, high)\<close>.\<close>

definition rand_ok :: "rand_source \<Rightarrow> bool" where
  "rand_ok src = (\<forall>t high. 0 < high \<longrightarrow> 0 \<le> src t high \<and> src t high < high)"

text \<open>\<^verbatim>\<open>moves[np.random.randint(len(moves))]\<close>.\<close>

definition pick_move :: "rand_source \<Rightarrow> nat \<Rightarrow> pos list \<Rightarrow> error + pos" where
  "pick_move src t moves =
     (case randint src t (int (length moves)) of
        Inl e \<Rightarrow> Inl e
      | Inr i \<Rightarrow> py_index moves i)"

subsection \<open>The walk\<close>

type_synonym world = "chesscrypt \<times> nat"

definition move_knight :: "rand_source \<Rightarrow> world \<Rightarrow> error + world" where
  "move_knight src w =
     (case get_knight_moves (box_size (fst w)) (knight_pos (fst w)) of
        Inl e \<Rightarrow> Inl e
      | Inr knight_moves \<Rightarrow>
          (case pick_move src (snd w) knight_moves of
             Inl e \<Rightarrow> Inl e
           | Inr new_knight_pos \<Rightarrow>
               (case swap_positions (fst w) (knight_pos (fst w)) new_knight_pos of
                  Inl e \<Rightarrow> Inl e
                | Inr s \<Rightarrow> Inr (s\<lparr>knight_pos := new_knight_pos\<rparr>, Suc (snd w)))))"

definition move_king :: "rand_source \<Rightarrow> world \<Rightarrow> error + world" where
  "move_king src w =
     (case get_king_moves (box_size (fst w)) (king_pos (fst w)) of
        Inl e \<Rightarrow> Inl e
      | Inr king_moves \<Rightarrow>
          (case pick_move src (snd w) king_moves of
             Inl e \<Rightarrow> Inl e
           | Inr new_king_pos \<Rightarrow>
               (case swap_positions (fst w) (king_pos (fst w)) new_king_pos of
                  Inl e \<Rightarrow> Inl e
                | Inr s \<Rightarrow> Inr (s\<lparr>king_pos := new_king_pos\<rparr>, Suc (snd w)))))"

definition move_bishop :: "rand_source \<Rightarrow> world \<Rightarrow> error + world" where
  "move_bishop src w =
     (case pick_move src (snd w) (get_bishop_moves (box_size (fst w)) (bishop_pos (fst w))) of
        Inl e \<Rightarrow> Inl e
      | Inr new_bishop_pos \<Rightarrow>
          (case swap_positions (fst w) (bishop_pos (fst w)) new_bishop_pos of
             Inl e \<Rightarrow> Inl e
           | Inr s \<Rightarrow> Inr (s\<lparr>bishop_pos := new_bishop_pos\<rparr>, Suc (snd w))))"

text \<open>One pass of the loop body: knight, king, bishop, in this order.\<close>

definition iteration :: "rand_source \<Rightarrow> world \<Rightarrow> error + world" where
  "iteration src w =
     (case move_knight src w of
        Inl e \<Rightarrow> Inl e
      | Inr w1 \<Rightarrow>
          (case move_king src w1 of
             Inl e \<Rightarrow> Inl e
           | Inr w2 \<Rightarrow> move_bishop src w2))"

fun generate_loop :: "rand_source \<Rightarrow> nat \<Rightarrow> world \<Rightarrow> error + world" where
  "generate_loop src 0 w = Inr w"
| "generate_loop src (Suc k) w =
     (case iteration src w of
        Inl e \<Rightarrow> Inl e
      | Inr w' \<Rightarrow> generate_loop src k w')"

text \<open>
  \<^verbatim>\<open>for _ in range(iterations)\<close>: no pass at all when \<open>iterations \<le> 0\<close>. The method
  returns the table, which is the field \<open>sbox\<close> of the object returned here.
\<close>

definition generate_sbox :: "rand_source \<Rightarrow> int \<Rightarrow> world \<Rightarrow> error + world" where
  "generate_sbox src iterations w =
     (if iterations \<le> 0 then Inr w else generate_loop src (nat iterations) w)"

subsection \<open>Substitution\<close>

definition substitute :: "chesscrypt \<Rightarrow> int \<Rightarrow> error + int" where
  "substitute s input_byte =
     (if box_size s = 0 then Inl ZeroDivisionError
      else read_cell (sbox s) (input_byte div box_size s, input_byte mod box_size s))"

subsection \<open>Well-formed tables and positions\<close>

text \<open>
  What the constructor establishes and every method keeps: a positive \<open>box_size\<close> and
  a table of \<open>box_size\<close> rows of \<open>box_size\<close> cells. A position on the board has
  both coordinates in \<open>[0, box_size)\<close>.
\<close>

definition table_ok :: "chesscrypt \<Rightarrow> bool" where
  "table_ok s =
     (0 < box_size s \<and> length (sbox s) = nat (box_size s)
      \<and> (\<forall>row \<in> set (sbox s). length row = nat (box_size s)))"

definition on_board :: "int \<Rightarrow> pos \<Rightarrow> bool" where
  "on_board n p = (0 \<le> fst p \<and> fst p < n \<and> 0 \<le> snd p \<and> snd p < n)"

text \<open>
  Reading and writing a cell at a position on the board, and the place of that cell in
  the flattened table (\<^verbatim>\<open>sbox.flatten()\<close> is \<open>concat\<close> of the rows). These are
  used to state and prove the properties below; the methods themselves go through
  \<open>read_cell\<close> and \<open>write_cell\<close>.
\<close>

definition cell :: "int list list \<Rightarrow> pos \<Rightarrow> int" where
  "cell t p = t ! nat (fst p) ! nat (snd p)"

definition put :: "int list list \<Rightarrow> pos \<Rightarrow> int \<Rightarrow> int list list" where
  "put t p v = t[nat (fst p) := (t ! nat (fst p))[nat (snd p) := v]]"

definition flat_index :: "int \<Rightarrow> pos \<Rightarrow> nat" where
  "flat_index n p = nat (fst p) * nat n + nat (snd p)"

text \<open>
  The invariant of the walk: the three cursors are on the board; and what one step of
  the walk keeps (\<open>mset\<close> is the multiset of the flattened table's values).
\<close>

definition cursors_on_board :: "chesscrypt \<Rightarrow> bool" where
  "cursors_on_board s =
     (on_board (box_size s) (king_pos s) \<and> on_board (box_size s) (knight_pos s)
      \<and> on_board (box_size s) (bishop_pos s))"

definition keeps :: "chesscrypt \<Rightarrow> chesscrypt \<Rightarrow> bool" where
  "keeps s s' =
     (table_ok s' \<and> cursors_on_board s' \<and> box_size s' = box_size s
      \<and> mset (concat (sbox s')) = mset (concat (sbox s)))"

subsection \<open>Definitions that follow the specification's words\<close>

text \<open>
  The specification's contract for Board Geometry: \<^verbatim>\<open>wrap(value, side_length)\<close>
  returns \<^verbatim>\<open>((value % side_length) + side_length) % side_length\<close>.
\<close>

definition spec_wrap :: "int \<Rightarrow> int \<Rightarrow> int" where
  "spec_wrap v side_length = ((v mod side_length) + side_length) mod side_length"

definition spec_wrap_pos :: "int \<Rightarrow> pos \<Rightarrow> pos" where
  "spec_wrap_pos side_length p = (spec_wrap (fst p) side_length, spec_wrap (snd p) side_length)"

text \<open>
  The reimplementation the specification warns about: each diagonal step computed
  on its own from the starting position, as \<open>(start + k * direction) mod side_length\<close>
  for \<open>k = 1, ..., side_length\<close>.
\<close>

definition independent_bishop_moves :: "int \<Rightarrow> pos \<Rightarrow> pos list" where
  "independent_bishop_moves side_length p =
     concat (map (\<lambda>d. map (\<lambda>k. ((fst p + k * fst d) mod side_length,
                                  (snd p + k * snd d) mod side_length))
                         [1..side_length])
                 bishop_directions)"

section \<open>Auxiliary facts\<close>

lemma wrap_all_nonzero:
  "bs \<noteq> 0 \<Longrightarrow> wrap_all bs ms = Inr (map (\<lambda>m. (fst m mod bs, snd m mod bs)) ms)"
  by (induction ms) (simp_all add: py_mod_def)

lemma length_bishop_walk: "length (bishop_walk k bs d cur) = k"
  by (induction k arbitrary: cur) (simp_all add: Let_def)

lemma length_knight_targets: "length (knight_targets p) = 8"
  by (simp add: knight_targets_def)

lemma length_king_targets: "length (king_targets p) = 8"
  by (simp add: king_targets_def)

lemma length_get_bishop_moves: "length (get_bishop_moves bs p) = 4 * nat bs"
  by (simp add: get_bishop_moves_def bishop_directions_def length_bishop_walk)

lemma norm_index_in: "0 \<le> i \<Longrightarrow> i < int n \<Longrightarrow> norm_index n i = Some (nat i)"
  by (simp add: norm_index_def)

lemma norm_index_neg: "- int n \<le> i \<Longrightarrow> i < 0 \<Longrightarrow> norm_index n i = Some (nat (i + int n))"
  by (simp add: norm_index_def)

lemma norm_index_out: "int n \<le> i \<or> i < - int n \<Longrightarrow> norm_index n i = None"
  by (auto simp add: norm_index_def)

lemma table_ok_row:
  "table_ok s \<Longrightarrow> r < nat (box_size s) \<Longrightarrow> length (sbox s ! r) = nat (box_size s)"
  by (simp add: table_ok_def)

lemma read_cell_on_board:
  assumes "table_ok s" "on_board (box_size s) p"
  shows "read_cell (sbox s) p = Inr (sbox s ! nat (fst p) ! nat (snd p))"
proof -
  from assms have r: "norm_index (length (sbox s)) (fst p) = Some (nat (fst p))"
    by (simp add: table_ok_def on_board_def norm_index_in)
  from assms have "nat (fst p) < nat (box_size s)"
    by (simp add: on_board_def)
  with assms have "length (sbox s ! nat (fst p)) = nat (box_size s)"
    by (simp add: table_ok_row)
  with assms have c: "norm_index (length (sbox s ! nat (fst p))) (snd p) = Some (nat (snd p))"
    by (simp add: on_board_def norm_index_in)
  show ?thesis by (simp add: read_cell_def r c)
qed

lemma read_cell_row_from_end:
  assumes "table_ok s" "- box_size s \<le> r" "r < 0" "0 \<le> c" "c < box_size s"
  shows "read_cell (sbox s) (r, c) = Inr (sbox s ! nat (r + box_size s) ! nat c)"
proof -
  from assms have r: "norm_index (length (sbox s)) r = Some (nat (r + box_size s))"
    by (simp add: table_ok_def norm_index_neg)
  from assms have "nat (r + box_size s) < nat (box_size s)"
    by simp
  with assms have "length (sbox s ! nat (r + box_size s)) = nat (box_size s)"
    by (simp add: table_ok_row)
  with assms have c: "norm_index (length (sbox s ! nat (r + box_size s))) c = Some (nat c)"
    by (simp add: norm_index_in)
  show ?thesis by (simp add: read_cell_def r c)
qed

lemma read_cell_row_out:
  assumes "table_ok s" "box_size s \<le> r \<or> r < - box_size s"
  shows "read_cell (sbox s) (r, c) = Inl IndexError"
proof -
  from assms have "norm_index (length (sbox s)) r = None"
    by (auto simp add: table_ok_def norm_index_def)
  then show ?thesis by (simp add: read_cell_def)
qed

lemma div_shift:
  fixes v n k :: int
  assumes "n \<noteq> 0"
  shows "(v + k * n) div n = v div n + k"
  using assms by simp

lemma div_below_side:
  fixes v n :: int
  assumes "0 < n" "v < n * n"
  shows "v div n < n"
proof -
  have e: "(v + (- n) * n) div n = v div n + (- n)" by (rule div_shift) (use assms in simp)
  have "v + (- n) * n < 0" using assms by simp
  hence "(v + (- n) * n) div n < 0" using assms(1) by (rule div_neg_pos_less0)
  with e show ?thesis by linarith
qed

lemma div_from_side:
  fixes v n :: int
  assumes "0 < n" "n * n \<le> v"
  shows "n \<le> v div n"
proof -
  have e: "(v + (- n) * n) div n = v div n + (- n)" by (rule div_shift) (use assms in simp)
  have "0 \<le> v + (- n) * n" using assms by simp
  hence "0 \<le> (v + (- n) * n) div n" using assms(1) by (simp only: pos_imp_zdiv_nonneg_iff)
  with e show ?thesis by linarith
qed

lemma div_below_minus_side:
  fixes v n :: int
  assumes "0 < n" "v < - (n * n)"
  shows "v div n < - n"
proof -
  have e: "(v + n * n) div n = v div n + n" by (rule div_shift) (use assms in simp)
  have "v + n * n < 0" using assms by simp
  hence "(v + n * n) div n < 0" using assms(1) by (rule div_neg_pos_less0)
  with e show ?thesis by linarith
qed

lemma div_from_minus_side:
  fixes v n :: int
  assumes "0 < n" "- (n * n) \<le> v"
  shows "- n \<le> v div n"
proof -
  have e: "(v + n * n) div n = v div n + n" by (rule div_shift) (use assms in simp)
  have "0 \<le> v + n * n" using assms by simp
  hence "0 \<le> (v + n * n) div n" using assms(1) by (simp only: pos_imp_zdiv_nonneg_iff)
  with e show ?thesis by linarith
qed

lemma length_put: "length (put t p v) = length t"
  by (simp add: put_def)

lemma rows_put:
  assumes "\<forall>row \<in> set t. length row = w"
  shows "\<forall>row \<in> set (put t p v). length row = w"
proof
  fix row assume "row \<in> set (put t p v)"
  then have "row \<in> insert ((t ! nat (fst p))[nat (snd p) := v]) (set t)"
    unfolding put_def using set_update_subset_insert by fastforce
  then show "length row = w"
  proof
    assume e: "row = (t ! nat (fst p))[nat (snd p) := v]"
    show ?thesis
    proof (cases "nat (fst p) < length t")
      case True
      then have "t ! nat (fst p) \<in> set t" by simp
      with assms e show ?thesis by simp
    next
      case False
      then have "put t p v = t" by (simp add: put_def list_update_beyond)
      with \<open>row \<in> set (put t p v)\<close> assms show ?thesis by simp
    qed
  next
    assume "row \<in> set t" with assms show ?thesis by simp
  qed
qed

lemma table_ok_put: "table_ok s \<Longrightarrow> table_ok (s\<lparr>sbox := put (sbox s) p v\<rparr>)"
  using rows_put [of "sbox s" "nat (box_size s)" p v]
  by (simp add: table_ok_def length_put)

lemma concat_row_update:
  assumes "\<forall>row \<in> set t. length row = w" "r < length t" "c < w"
  shows "concat (t[r := (t ! r)[c := v]]) = (concat t)[r * w + c := v]"
  using assms
proof (induction t arbitrary: r)
  case Nil
  then show ?case by simp
next
  case (Cons row t)
  show ?case
  proof (cases r)
    case 0
    with Cons.prems show ?thesis by (simp add: list_update_append)
  next
    case (Suc r')
    with Cons.prems have "concat (t[r' := (t ! r')[c := v]]) = (concat t)[r' * w + c := v]"
      by (intro Cons.IH) simp_all
    with Suc Cons.prems show ?thesis by (simp add: list_update_append)
  qed
qed

lemma concat_row_nth:
  assumes "\<forall>row \<in> set t. length row = w" "r < length t" "c < w"
  shows "concat t ! (r * w + c) = t ! r ! c"
  using assms
proof (induction t arbitrary: r)
  case Nil
  then show ?case by simp
next
  case (Cons row t)
  show ?case
  proof (cases r)
    case 0
    with Cons.prems show ?thesis by (simp add: nth_append)
  next
    case (Suc r')
    with Cons.prems have "concat t ! (r' * w + c) = t ! r' ! c"
      by (intro Cons.IH) simp_all
    with Suc Cons.prems show ?thesis by (simp add: nth_append)
  qed
qed

lemma length_concat_rows:
  assumes "\<forall>row \<in> set t. length row = w"
  shows "length (concat t) = length t * w"
  using assms by (induction t) simp_all

lemma row_major_less:
  fixes a b n :: nat
  assumes "a < n" "b < n"
  shows "a * n + b < n * n"
proof -
  from assms(2) have "a * n + b < Suc a * n" by simp
  also from assms(1) have "Suc a * n \<le> n * n" by (intro mult_le_mono1) simp
  finally show ?thesis .
qed

lemma flat_index_less:
  assumes "0 < n" "on_board n p"
  shows "flat_index n p < nat n * nat n"
proof -
  from assms have "nat (fst p) < nat n" and "nat (snd p) < nat n"
    by (simp_all add: on_board_def)
  then show ?thesis unfolding flat_index_def by (rule row_major_less)
qed

lemma concat_put:
  assumes "table_ok s" "on_board (box_size s) p"
  shows "concat (put (sbox s) p v) = (concat (sbox s))[flat_index (box_size s) p := v]"
  using assms concat_row_update [of "sbox s" "nat (box_size s)" "nat (fst p)" "nat (snd p)" v]
  by (simp add: table_ok_def on_board_def put_def flat_index_def)

lemma concat_cell:
  assumes "table_ok s" "on_board (box_size s) p"
  shows "concat (sbox s) ! flat_index (box_size s) p = cell (sbox s) p"
  using assms concat_row_nth [of "sbox s" "nat (box_size s)" "nat (fst p)" "nat (snd p)"]
  by (simp add: table_ok_def on_board_def cell_def flat_index_def)

lemma length_flat:
  assumes "table_ok s"
  shows "length (concat (sbox s)) = nat (box_size s) * nat (box_size s)"
  using assms length_concat_rows [of "sbox s" "nat (box_size s)"]
  by (simp add: table_ok_def)

lemma read_cell_cell:
  "table_ok s \<Longrightarrow> on_board (box_size s) p \<Longrightarrow> read_cell (sbox s) p = Inr (cell (sbox s) p)"
  by (simp add: read_cell_on_board cell_def)

lemma write_cell_put:
  assumes "table_ok s" "on_board (box_size s) p"
  shows "write_cell (sbox s) p v = Inr (put (sbox s) p v)"
proof -
  from assms have r: "norm_index (length (sbox s)) (fst p) = Some (nat (fst p))"
    by (simp add: table_ok_def on_board_def norm_index_in)
  from assms have "nat (fst p) < nat (box_size s)"
    by (simp add: on_board_def)
  with assms have "length (sbox s ! nat (fst p)) = nat (box_size s)"
    by (simp add: table_ok_row)
  with assms have c: "norm_index (length (sbox s ! nat (fst p))) (snd p) = Some (nat (snd p))"
    by (simp add: on_board_def norm_index_in)
  show ?thesis by (simp add: write_cell_def put_def r c)
qed

lemma cell_put:
  assumes "table_ok s" "on_board (box_size s) p" "on_board (box_size s) q"
  shows "cell (put (sbox s) p v) q = (if q = p then v else cell (sbox s) q)"
proof -
  from assms have rp: "nat (fst p) < length (sbox s)" and rq: "nat (fst q) < length (sbox s)"
    by (simp_all add: table_ok_def on_board_def)
  from assms rp have cp: "nat (snd p) < length (sbox s ! nat (fst p))"
    by (simp add: table_ok_def on_board_def)
  from assms have e: "q = p \<longleftrightarrow> nat (fst q) = nat (fst p) \<and> nat (snd q) = nat (snd p)"
    by (auto simp add: on_board_def prod_eq_iff)
  show ?thesis
    using rp rq cp by (auto simp add: e cell_def put_def nth_list_update)
qed

lemma swap_positions_on_board:
  assumes ok: "table_ok s" and p1: "on_board (box_size s) pos1" and p2: "on_board (box_size s) pos2"
  shows "swap_positions s pos1 pos2 =
           Inr (s\<lparr>sbox := put (put (sbox s) pos1 (cell (sbox s) pos2)) pos2 (cell (sbox s) pos1)\<rparr>)"
proof -
  let ?s1 = "s\<lparr>sbox := put (sbox s) pos1 (cell (sbox s) pos2)\<rparr>"
  have ok1: "table_ok ?s1" using ok by (rule table_ok_put)
  have "write_cell (sbox ?s1) pos2 (cell (sbox s) pos1) = Inr (put (sbox ?s1) pos2 (cell (sbox s) pos1))"
    using ok1 p2 by (intro write_cell_put) simp_all
  then show ?thesis
    using ok p1 p2 by (simp add: swap_positions_def read_cell_cell write_cell_put)
qed

lemma mset_swapped:
  assumes ok: "table_ok s" and p1: "on_board (box_size s) pos1" and p2: "on_board (box_size s) pos2"
  shows "mset (concat (put (put (sbox s) pos1 (cell (sbox s) pos2)) pos2 (cell (sbox s) pos1)))
         = mset (concat (sbox s))"
proof -
  let ?n = "box_size s"
  let ?f = "concat (sbox s)"
  let ?i = "flat_index ?n pos1" and ?j = "flat_index ?n pos2"
  let ?s1 = "s\<lparr>sbox := put (sbox s) pos1 (cell (sbox s) pos2)\<rparr>"
  from ok have n: "0 < ?n" by (simp add: table_ok_def)
  have ok1: "table_ok ?s1" using ok by (rule table_ok_put)
  have i: "?i < length ?f" and j: "?j < length ?f"
    using flat_index_less [OF n p1] flat_index_less [OF n p2] length_flat [OF ok] by simp_all
  have "concat (put (sbox ?s1) pos2 (cell (sbox s) pos1))
          = (concat (sbox ?s1))[?j := cell (sbox s) pos1]"
    using concat_put [of ?s1 pos2] ok1 p2 by simp
  also have "concat (sbox ?s1) = ?f[?i := cell (sbox s) pos2]"
    using concat_put [OF ok p1] by simp
  finally have "concat (put (put (sbox s) pos1 (cell (sbox s) pos2)) pos2 (cell (sbox s) pos1))
          = ?f[?i := ?f ! ?j, ?j := ?f ! ?i]"
    using concat_cell [OF ok p1] concat_cell [OF ok p2] by simp
  moreover have "mset (?f[?i := ?f ! ?j, ?j := ?f ! ?i]) = mset ?f"
    using j i by (rule mset_swap)
  ultimately show ?thesis by simp
qed

lemma length_np_arange: "length (np_arange m) = nat m"
  by (simp add: np_arange_def)

lemma np_arange_nth: "k < nat m \<Longrightarrow> np_arange m ! k = int k"
  by (simp add: np_arange_def)

lemma length_rows_of: "length (rows_of r c xs) = r"
  by (induction r arbitrary: xs) simp_all

lemma rows_of_widths:
  "length xs = r * c \<Longrightarrow> \<forall>row \<in> set (rows_of r c xs). length row = c"
proof (induction r arbitrary: xs)
  case 0
  then show ?case by simp
next
  case (Suc r)
  from Suc.prems have "length (drop c xs) = r * c" by simp
  then have "\<forall>row \<in> set (rows_of r c (drop c xs)). length row = c" by (rule Suc.IH)
  with Suc.prems show ?case by simp
qed

lemma concat_rows_of: "length xs = r * c \<Longrightarrow> concat (rows_of r c xs) = xs"
  by (induction r arbitrary: xs) simp_all

lemma init_nonneg:
  assumes "0 \<le> n"
  shows "init n = Inr \<lparr>box_size = n, sbox = rows_of (nat n) (nat n) (np_arange (n * n)),
                        king_pos = (0, 0), knight_pos = (n div 2, n div 2),
                        bishop_pos = (n - 1, n - 1)\<rparr>"
  using assms by (simp add: init_def np_reshape_square_def length_np_arange)

lemma nat_square: "0 \<le> n \<Longrightarrow> nat (n * n) = nat n * nat n"
  by (simp add: nat_mult_distrib)

lemma init_table_ok:
  assumes "0 < n" "init n = Inr s"
  shows "table_ok s" "box_size s = n" "concat (sbox s) = np_arange (n * n)"
    "king_pos s = (0, 0)" "knight_pos s = (n div 2, n div 2)" "bishop_pos s = (n - 1, n - 1)"
proof -
  from assms have s: "s = \<lparr>box_size = n, sbox = rows_of (nat n) (nat n) (np_arange (n * n)),
                        king_pos = (0, 0), knight_pos = (n div 2, n div 2),
                        bishop_pos = (n - 1, n - 1)\<rparr>"
    using init_nonneg [of n] by simp
  have len: "length (np_arange (n * n)) = nat n * nat n"
    using assms(1) by (simp add: length_np_arange nat_square)
  show "table_ok s"
    using assms(1) rows_of_widths [OF len] by (simp add: s table_ok_def length_rows_of)
  show "box_size s = n" by (simp add: s)
  show "concat (sbox s) = np_arange (n * n)"
    using concat_rows_of [OF len] by (simp add: s)
  show "king_pos s = (0, 0)" "knight_pos s = (n div 2, n div 2)" "bishop_pos s = (n - 1, n - 1)"
    by (simp_all add: s)
qed

lemma init_cell:
  assumes n: "0 < n" and i: "init n = Inr s" and p: "on_board n p"
  shows "read_cell (sbox s) p = Inr (fst p * n + snd p)"
proof -
  have ok: "table_ok s" and bs: "box_size s = n" and fl: "concat (sbox s) = np_arange (n * n)"
    using init_table_ok [OF n i] by simp_all
  from p bs have p': "on_board (box_size s) p" by simp
  have "flat_index n p < nat (n * n)"
    using flat_index_less [OF n p] n by (simp add: nat_square)
  then have "np_arange (n * n) ! flat_index n p = int (flat_index n p)"
    by (rule np_arange_nth)
  moreover have "int (flat_index n p) = fst p * n + snd p"
    using n p by (simp add: flat_index_def on_board_def)
  moreover have "cell (sbox s) p = concat (sbox s) ! flat_index n p"
    using concat_cell [OF ok p'] bs by simp
  ultimately show ?thesis
    using read_cell_cell [OF ok p'] fl by simp
qed

lemma wrap_all_on_board:
  assumes "0 < n" "wrap_all n ms = Inr ms'" "q \<in> set ms'"
  shows "on_board n q"
proof -
  from assms(1) have "wrap_all n ms = Inr (map (\<lambda>m. (fst m mod n, snd m mod n)) ms)"
    by (intro wrap_all_nonzero) simp
  with assms(2,3) obtain m where "q = (fst m mod n, snd m mod n)" by auto
  with assms(1) show ?thesis by (simp add: on_board_def)
qed

lemma bishop_walk_on_board:
  "0 < n \<Longrightarrow> q \<in> set (bishop_walk k n d cur) \<Longrightarrow> on_board n q"
  by (induction k arbitrary: cur) (auto simp add: Let_def on_board_def)

lemma get_bishop_moves_on_board:
  assumes "0 < n" "q \<in> set (get_bishop_moves n p)"
  shows "on_board n q"
  using assms bishop_walk_on_board [of n q "nat n" _ p]
  by (auto simp add: get_bishop_moves_def)

lemma pick_move_member:
  assumes "rand_ok src" "moves \<noteq> []"
  shows "\<exists>q \<in> set moves. pick_move src t moves = Inr q"
proof -
  let ?h = "int (length moves)"
  from assms(2) have h: "0 < ?h" by simp
  with assms(1) have lo: "0 \<le> src t ?h" and hi: "src t ?h < ?h"
    unfolding rand_ok_def by blast+
  then have "norm_index (length moves) (src t ?h) = Some (nat (src t ?h))"
    by (rule norm_index_in)
  then have "pick_move src t moves = Inr (moves ! nat (src t ?h))"
    using h by (simp add: pick_move_def randint_def py_index_def)
  moreover from lo hi have "moves ! nat (src t ?h) \<in> set moves" by simp
  ultimately show ?thesis by blast
qed

lemma knight_moves_eight:
  "0 < n \<Longrightarrow> \<exists>ms. get_knight_moves n p = Inr ms \<and> length ms = 8"
  by (simp add: get_knight_moves_def wrap_all_nonzero length_knight_targets)

lemma king_moves_eight:
  "0 < n \<Longrightarrow> \<exists>ms. get_king_moves n p = Inr ms \<and> length ms = 8"
  by (simp add: get_king_moves_def wrap_all_nonzero length_king_targets)

lemma put_same: "put t p (cell t p) = t"
  by (simp add: put_def cell_def)

lemma swap_positions_keeps:
  assumes ok: "table_ok s" and p1: "on_board (box_size s) pos1" and p2: "on_board (box_size s) pos2"
  shows "\<exists>t'. swap_positions s pos1 pos2 = Inr (s\<lparr>sbox := t'\<rparr>)
           \<and> table_ok (s\<lparr>sbox := t'\<rparr>) \<and> mset (concat t') = mset (concat (sbox s))"
proof -
  let ?t1 = "put (sbox s) pos1 (cell (sbox s) pos2)"
  let ?t2 = "put ?t1 pos2 (cell (sbox s) pos1)"
  have "table_ok (s\<lparr>sbox := ?t1\<rparr>)" using ok by (rule table_ok_put)
  then have "table_ok (s\<lparr>sbox := ?t1\<rparr>\<lparr>sbox := put (sbox (s\<lparr>sbox := ?t1\<rparr>)) pos2 (cell (sbox s) pos1)\<rparr>)"
    by (rule table_ok_put)
  then have "table_ok (s\<lparr>sbox := ?t2\<rparr>)" by simp
  with swap_positions_on_board [OF ok p1 p2] mset_swapped [OF ok p1 p2]
  show ?thesis by blast
qed

lemma move_knight_keeps:
  assumes src: "rand_ok src" and ok: "table_ok s" and cur: "cursors_on_board s"
  shows "\<exists>s'. move_knight src (s, t) = Inr (s', Suc t) \<and> keeps s s'"
proof -
  from ok have n: "0 < box_size s" by (simp add: table_ok_def)
  obtain ms where ms: "get_knight_moves (box_size s) (knight_pos s) = Inr ms" and len: "length ms = 8"
    using knight_moves_eight [OF n, of "knight_pos s"] by blast
  from len have "ms \<noteq> []" by auto
  from pick_move_member [OF src this] obtain q
    where q: "q \<in> set ms" and pick: "pick_move src t ms = Inr q" by blast
  from ms q n have qb: "on_board (box_size s) q"
    unfolding get_knight_moves_def by (rule wrap_all_on_board [rotated])
  from cur have "on_board (box_size s) (knight_pos s)" by (simp add: cursors_on_board_def)
  from swap_positions_keeps [OF ok this qb] obtain t'
    where sw: "swap_positions s (knight_pos s) q = Inr (s\<lparr>sbox := t'\<rparr>)"
      and ok': "table_ok (s\<lparr>sbox := t'\<rparr>)" and m: "mset (concat t') = mset (concat (sbox s))"
    by blast
  have "move_knight src (s, t) = Inr (s\<lparr>sbox := t', knight_pos := q\<rparr>, Suc t)"
    by (simp add: move_knight_def ms pick sw)
  moreover have "keeps s (s\<lparr>sbox := t', knight_pos := q\<rparr>)"
    using ok' m cur qb by (simp add: keeps_def table_ok_def cursors_on_board_def)
  ultimately show ?thesis by blast
qed

lemma move_king_keeps:
  assumes src: "rand_ok src" and ok: "table_ok s" and cur: "cursors_on_board s"
  shows "\<exists>s'. move_king src (s, t) = Inr (s', Suc t) \<and> keeps s s'"
proof -
  from ok have n: "0 < box_size s" by (simp add: table_ok_def)
  obtain ms where ms: "get_king_moves (box_size s) (king_pos s) = Inr ms" and len: "length ms = 8"
    using king_moves_eight [OF n, of "king_pos s"] by blast
  from len have "ms \<noteq> []" by auto
  from pick_move_member [OF src this] obtain q
    where q: "q \<in> set ms" and pick: "pick_move src t ms = Inr q" by blast
  from ms q n have qb: "on_board (box_size s) q"
    unfolding get_king_moves_def by (rule wrap_all_on_board [rotated])
  from cur have "on_board (box_size s) (king_pos s)" by (simp add: cursors_on_board_def)
  from swap_positions_keeps [OF ok this qb] obtain t'
    where sw: "swap_positions s (king_pos s) q = Inr (s\<lparr>sbox := t'\<rparr>)"
      and ok': "table_ok (s\<lparr>sbox := t'\<rparr>)" and m: "mset (concat t') = mset (concat (sbox s))"
    by blast
  have "move_king src (s, t) = Inr (s\<lparr>sbox := t', king_pos := q\<rparr>, Suc t)"
    by (simp add: move_king_def ms pick sw)
  moreover have "keeps s (s\<lparr>sbox := t', king_pos := q\<rparr>)"
    using ok' m cur qb by (simp add: keeps_def table_ok_def cursors_on_board_def)
  ultimately show ?thesis by blast
qed

lemma move_bishop_keeps:
  assumes src: "rand_ok src" and ok: "table_ok s" and cur: "cursors_on_board s"
  shows "\<exists>s'. move_bishop src (s, t) = Inr (s', Suc t) \<and> keeps s s'"
proof -
  from ok have n: "0 < box_size s" by (simp add: table_ok_def)
  let ?ms = "get_bishop_moves (box_size s) (bishop_pos s)"
  from n have "length ?ms \<noteq> 0" by (simp add: length_get_bishop_moves)
  then have "?ms \<noteq> []" by simp
  from pick_move_member [OF src this] obtain q
    where q: "q \<in> set ?ms" and pick: "pick_move src t ?ms = Inr q" by blast
  from n q have qb: "on_board (box_size s) q" by (rule get_bishop_moves_on_board)
  from cur have "on_board (box_size s) (bishop_pos s)" by (simp add: cursors_on_board_def)
  from swap_positions_keeps [OF ok this qb] obtain t'
    where sw: "swap_positions s (bishop_pos s) q = Inr (s\<lparr>sbox := t'\<rparr>)"
      and ok': "table_ok (s\<lparr>sbox := t'\<rparr>)" and m: "mset (concat t') = mset (concat (sbox s))"
    by blast
  have "move_bishop src (s, t) = Inr (s\<lparr>sbox := t', bishop_pos := q\<rparr>, Suc t)"
    by (simp add: move_bishop_def pick sw)
  moreover have "keeps s (s\<lparr>sbox := t', bishop_pos := q\<rparr>)"
    using ok' m cur qb by (simp add: keeps_def table_ok_def cursors_on_board_def)
  ultimately show ?thesis by blast
qed

lemma keeps_trans: "keeps a b \<Longrightarrow> keeps b c \<Longrightarrow> keeps a c"
  by (simp add: keeps_def)

lemma keeps_refl: "table_ok s \<Longrightarrow> cursors_on_board s \<Longrightarrow> keeps s s"
  by (simp add: keeps_def)

lemma iteration_keeps:
  assumes src: "rand_ok src" and ok: "table_ok s" and cur: "cursors_on_board s"
  shows "\<exists>s'. iteration src (s, t) = Inr (s', t + 3) \<and> keeps s s'"
proof -
  from move_knight_keeps [OF src ok cur] obtain s1
    where m1: "move_knight src (s, t) = Inr (s1, Suc t)" and k1: "keeps s s1" by blast
  from k1 have ok1: "table_ok s1" and cur1: "cursors_on_board s1" by (simp_all add: keeps_def)
  from move_king_keeps [OF src ok1 cur1] obtain s2
    where m2: "move_king src (s1, Suc t) = Inr (s2, Suc (Suc t))" and k2: "keeps s1 s2" by blast
  from k2 have ok2: "table_ok s2" and cur2: "cursors_on_board s2" by (simp_all add: keeps_def)
  from move_bishop_keeps [OF src ok2 cur2] obtain s3
    where m3: "move_bishop src (s2, Suc (Suc t)) = Inr (s3, Suc (Suc (Suc t)))"
      and k3: "keeps s2 s3" by blast
  have "iteration src (s, t) = Inr (s3, t + 3)"
    by (simp add: iteration_def m1 m2 m3)
  moreover have "keeps s s3" using k1 k2 k3 by (blast intro: keeps_trans)
  ultimately show ?thesis by blast
qed

lemma generate_loop_keeps:
  assumes src: "rand_ok src"
  shows "table_ok s \<Longrightarrow> cursors_on_board s \<Longrightarrow>
         \<exists>s'. generate_loop src k (s, t) = Inr (s', t + 3 * k) \<and> keeps s s'"
proof (induction k arbitrary: s t)
  case 0
  then show ?case by (simp add: keeps_refl)
next
  case (Suc k)
  from iteration_keeps [OF src Suc.prems] obtain s1
    where i: "iteration src (s, t) = Inr (s1, t + 3)" and k1: "keeps s s1" by blast
  from k1 have "table_ok s1" and "cursors_on_board s1" by (simp_all add: keeps_def)
  from Suc.IH [OF this, of "t + 3"] obtain s'
    where g: "generate_loop src k (s1, t + 3) = Inr (s', t + 3 + 3 * k)" and k2: "keeps s1 s'"
    by blast
  have "generate_loop src (Suc k) (s, t) = Inr (s', t + 3 * Suc k)"
    using i g by (simp add: add.commute add.left_commute)
  moreover have "keeps s s'" using k1 k2 by (rule keeps_trans)
  ultimately show ?case by blast
qed

lemma generate_sbox_keeps:
  assumes "rand_ok src" "table_ok s" "cursors_on_board s"
  shows "\<exists>s'. generate_sbox src iterations (s, t) = Inr (s', t + 3 * nat iterations) \<and> keeps s s'"
proof (cases "iterations \<le> 0")
  case True
  with assms show ?thesis by (simp add: generate_sbox_def keeps_refl)
next
  case False
  with generate_loop_keeps [OF assms, of "nat iterations" t] show ?thesis
    by (simp add: generate_sbox_def)
qed

lemma generate_loop_Suc:
  "generate_loop src (Suc k) w =
     (case generate_loop src k w of Inl e \<Rightarrow> Inl e | Inr w' \<Rightarrow> iteration src w')"
proof (induction k arbitrary: w)
  case 0
  show ?case by (simp split: sum.splits)
next
  case (Suc k)
  show ?case
  proof (cases "iteration src w")
    case (Inl e)
    then show ?thesis by simp
  next
    case (Inr w1)
    have a: "generate_loop src (Suc k) w = generate_loop src k w1" using Inr by simp
    have b: "generate_loop src (Suc (Suc k)) w = generate_loop src (Suc k) w1" using Inr by simp
    show ?thesis unfolding b a by (rule Suc.IH)
  qed
qed

lemma generate_sbox_next:
  assumes "0 \<le> k" "generate_sbox src k w = Inr w'"
  shows "generate_sbox src (k + 1) w = iteration src w'"
proof (cases "k = 0")
  case True
  with assms show ?thesis by (simp add: generate_sbox_def split: sum.splits)
next
  case False
  with assms have k: "0 < k" by simp
  then have "nat (k + 1) = Suc (nat k)" by simp
  with assms k show ?thesis
    by (simp add: generate_sbox_def generate_loop_Suc del: generate_loop.simps)
qed

lemma init_cursors:
  assumes "0 < n" "init n = Inr s"
  shows "cursors_on_board s"
proof -
  have "0 \<le> n div 2" using assms(1) by (simp add: pos_imp_zdiv_nonneg_iff)
  moreover have "n div 2 < n" using assms(1) by simp
  ultimately show ?thesis
    using assms(1) init_table_ok(2,4,5,6) [OF assms]
    by (simp add: cursors_on_board_def on_board_def)
qed

lemma mset_np_arange_square:
  "0 < n \<Longrightarrow> init n = Inr s \<Longrightarrow> mset (concat (sbox s)) = mset [0..n * n - 1]"
  using init_table_ok(3) [of n s] by (simp add: np_arange_def)

lemma pick_move_same_draw:
  assumes "\<forall>high. src1 t high = src2 t high"
  shows "pick_move src1 t = pick_move src2 t"
proof
  fix ms show "pick_move src1 t ms = pick_move src2 t ms"
    using assms by (simp add: pick_move_def randint_def)
qed

lemma move_knight_same_draw:
  assumes "\<forall>high. src1 (snd w) high = src2 (snd w) high"
  shows "move_knight src1 w = move_knight src2 w"
  by (simp only: move_knight_def pick_move_same_draw [of src1 "snd w" src2, OF assms])

lemma move_king_same_draw:
  assumes "\<forall>high. src1 (snd w) high = src2 (snd w) high"
  shows "move_king src1 w = move_king src2 w"
  by (simp only: move_king_def pick_move_same_draw [of src1 "snd w" src2, OF assms])

lemma move_bishop_same_draw:
  assumes "\<forall>high. src1 (snd w) high = src2 (snd w) high"
  shows "move_bishop src1 w = move_bishop src2 w"
  by (simp only: move_bishop_def pick_move_same_draw [of src1 "snd w" src2, OF assms])

lemma move_knight_counts: "move_knight src w = Inr w' \<Longrightarrow> snd w' = Suc (snd w)"
  by (auto simp add: move_knight_def split: sum.splits)

lemma move_king_counts: "move_king src w = Inr w' \<Longrightarrow> snd w' = Suc (snd w)"
  by (auto simp add: move_king_def split: sum.splits)

lemma move_bishop_counts: "move_bishop src w = Inr w' \<Longrightarrow> snd w' = Suc (snd w)"
  by (auto simp add: move_bishop_def split: sum.splits)

lemma iteration_counts:
  assumes "iteration src w = Inr w'"
  shows "snd w' = snd w + 3"
proof -
  from assms obtain w1 w2 where "move_knight src w = Inr w1" "move_king src w1 = Inr w2"
    "move_bishop src w2 = Inr w'"
    by (auto simp add: iteration_def split: sum.splits)
  then show ?thesis
    using move_knight_counts [of src w w1] move_king_counts [of src w1 w2]
      move_bishop_counts [of src w2 w'] by simp
qed

lemma iteration_same_draws:
  assumes "\<forall>j < 3. \<forall>high. src1 (snd w + j) high = src2 (snd w + j) high"
  shows "iteration src1 w = iteration src2 w"
proof -
  from assms have d0: "\<forall>high. src1 (snd w) high = src2 (snd w) high"
    and d1: "\<forall>high. src1 (Suc (snd w)) high = src2 (Suc (snd w)) high"
    and d2: "\<forall>high. src1 (Suc (Suc (snd w))) high = src2 (Suc (Suc (snd w))) high"
    using assms [rule_format, of 0] assms [rule_format, of 1] assms [rule_format, of 2]
    by simp_all
  have k: "move_knight src1 w = move_knight src2 w" using d0 by (rule move_knight_same_draw)
  show ?thesis
  proof (cases "move_knight src2 w")
    case (Inl e)
    with k show ?thesis by (simp add: iteration_def)
  next
    case (Inr w1)
    then have c1: "snd w1 = Suc (snd w)" by (rule move_knight_counts)
    with d1 have g: "move_king src1 w1 = move_king src2 w1" by (intro move_king_same_draw) simp
    show ?thesis
    proof (cases "move_king src2 w1")
      case (Inl e)
      with k Inr g show ?thesis by (simp add: iteration_def)
    next
      case i2: (Inr w2)
      then have "snd w2 = Suc (snd w1)" by (rule move_king_counts)
      with c1 d2 have "move_bishop src1 w2 = move_bishop src2 w2"
        by (intro move_bishop_same_draw) simp
      with k Inr g i2 show ?thesis by (simp add: iteration_def)
    qed
  qed
qed

lemma generate_loop_same_draws:
  "\<forall>j < 3 * k. \<forall>high. src1 (snd w + j) high = src2 (snd w + j) high
     \<Longrightarrow> generate_loop src1 k w = generate_loop src2 k w"
proof (induction k arbitrary: w)
  case 0
  show ?case by simp
next
  case (Suc k)
  have i: "iteration src1 w = iteration src2 w"
    using Suc.prems by (intro iteration_same_draws) simp
  show ?case
  proof (cases "iteration src2 w")
    case (Inl e)
    with i show ?thesis by simp
  next
    case (Inr w1)
    then have c: "snd w1 = snd w + 3" by (rule iteration_counts)
    have "\<forall>j < 3 * k. \<forall>high. src1 (snd w1 + j) high = src2 (snd w1 + j) high"
    proof (intro allI impI)
      fix j high assume "j < 3 * k"
      then have "3 + j < 3 * Suc k" by simp
      with Suc.prems have "src1 (snd w + (3 + j)) high = src2 (snd w + (3 + j)) high" by blast
      with c show "src1 (snd w1 + j) high = src2 (snd w1 + j) high" by (simp add: add.assoc)
    qed
    then have "generate_loop src1 k w1 = generate_loop src2 k w1" by (rule Suc.IH)
    with i Inr show ?thesis by simp
  qed
qed

lemma spec_wrap_mod: "0 < n \<Longrightarrow> spec_wrap v n = v mod n"
  by (simp add: spec_wrap_def)

lemma wrap_all_spec:
  assumes "0 < n"
  shows "wrap_all n ms = Inr (map (spec_wrap_pos n) ms)"
proof -
  from assms have "(\<lambda>m. (fst m mod n, snd m mod n)) = spec_wrap_pos n"
    by (simp add: fun_eq_iff spec_wrap_pos_def spec_wrap_mod)
  with assms wrap_all_nonzero [of n ms] show ?thesis by simp
qed

lemma spec_wrap_pos_on_board: "0 < n \<Longrightarrow> on_board n (spec_wrap_pos n p)"
  by (simp add: on_board_def spec_wrap_pos_def spec_wrap_mod)

lemma bishop_walk_closed:
  "fst cur mod n = (x + a * dx) mod n \<Longrightarrow> snd cur mod n = (y + a * dy) mod n \<Longrightarrow>
   bishop_walk k n (dx, dy) cur
     = map (\<lambda>j. ((x + j * dx) mod n, (y + j * dy) mod n)) [a + 1..a + int k]"
proof (induction k arbitrary: cur a)
  case 0
  show ?case by simp
next
  case (Suc k)
  let ?c = "((fst cur + dx) mod n, (snd cur + dy) mod n)"
  have fx: "(fst cur + dx) mod n = (x + (a + 1) * dx) mod n"
  proof -
    have "(fst cur + dx) mod n = (fst cur mod n + dx) mod n" by (simp add: mod_add_left_eq)
    also have "\<dots> = ((x + a * dx) mod n + dx) mod n" using Suc.prems(1) by simp
    also have "\<dots> = (x + a * dx + dx) mod n" by (simp add: mod_add_left_eq)
    finally show ?thesis by (simp add: algebra_simps)
  qed
  have fy: "(snd cur + dy) mod n = (y + (a + 1) * dy) mod n"
  proof -
    have "(snd cur + dy) mod n = (snd cur mod n + dy) mod n" by (simp add: mod_add_left_eq)
    also have "\<dots> = ((y + a * dy) mod n + dy) mod n" using Suc.prems(2) by simp
    also have "\<dots> = (y + a * dy + dy) mod n" by (simp add: mod_add_left_eq)
    finally show ?thesis by (simp add: algebra_simps)
  qed
  have "bishop_walk k n (dx, dy) ?c
          = map (\<lambda>j. ((x + j * dx) mod n, (y + j * dy) mod n)) [a + 1 + 1..a + 1 + int k]"
    by (rule Suc.IH) (simp_all add: fx fy)
  moreover have "[a + 1..a + int (Suc k)] = (a + 1) # [a + 1 + 1..a + 1 + int k]"
    by (simp add: upto_rec1 add.commute add.left_commute)
  ultimately show ?case by (simp add: Let_def fx fy)
qed

lemma bishop_walk_independent:
  "bishop_walk (nat n) n d p
     = map (\<lambda>k. ((fst p + k * fst d) mod n, (snd p + k * snd d) mod n)) [1..n]"
proof (cases "0 < n")
  case True
  have "bishop_walk (nat n) n (fst d, snd d) p
     = map (\<lambda>j. ((fst p + j * fst d) mod n, (snd p + j * snd d) mod n)) [0 + 1..0 + int (nat n)]"
    by (rule bishop_walk_closed) simp_all
  with True show ?thesis by simp
next
  case False
  then show ?thesis by simp
qed

lemma bishop_walk_first:
  "bishop_walk (Suc m) n d cur ! 0 = ((fst cur + fst d) mod n, (snd cur + snd d) mod n)"
  by (simp add: Let_def)

lemma bishop_walk_next:
  "Suc k < m \<Longrightarrow>
   bishop_walk m n d cur ! Suc k
     = ((fst (bishop_walk m n d cur ! k) + fst d) mod n,
        (snd (bishop_walk m n d cur ! k) + snd d) mod n)"
proof (induction m arbitrary: cur k)
  case 0
  then show ?case by simp
next
  case (Suc m)
  show ?case
  proof (cases k)
    case 0
    with Suc.prems obtain m' where "m = Suc m'" by (cases m) auto
    with 0 show ?thesis by (simp add: Let_def)
  next
    case (Suc k')
    with Suc.prems have "Suc k' < m" by simp
    from Suc.IH [OF this] Suc show ?thesis by (simp add: Let_def)
  qed
qed

section \<open>The claims\<close>

subsection \<open>The walk keeps the table a permutation\<close>

text \<open>
  Claim C1. For every positive side (so for every side of at least 3), every iteration
  count and every random source that keeps its contract, \<open>generate_sbox\<close> on a freshly
  built object returns, and the flattened table it leaves is a permutation of
  \<open>0, ..., box_size\<^sup>2 - 1\<close>. The same holds at every point in between: before each
  pass of the loop, after the knight's swap and after the king's swap of that pass
  (the bishop's swap ends the pass), since each of them exchanges two cells.
\<close>

theorem table_stays_permutation:
  assumes n: "0 < n" and src: "rand_ok src"
  shows "\<exists>s. init n = Inr s
     \<and> (\<exists>w. generate_sbox src iterations (s, t) = Inr w
            \<and> mset (concat (sbox (fst w))) = mset [0..n * n - 1])
     \<and> (\<forall>k. 0 \<le> k \<and> k < iterations \<longrightarrow>
           (\<exists>w a b. generate_sbox src k (s, t) = Inr w
              \<and> mset (concat (sbox (fst w))) = mset [0..n * n - 1]
              \<and> move_knight src w = Inr a
              \<and> mset (concat (sbox (fst a))) = mset [0..n * n - 1]
              \<and> move_king src a = Inr b
              \<and> mset (concat (sbox (fst b))) = mset [0..n * n - 1]
              \<and> move_bishop src b = generate_sbox src (k + 1) (s, t)))"
proof -
  from n obtain s where i: "init n = Inr s" using init_nonneg [of n] by simp
  have ok: "table_ok s" using init_table_ok(1) [OF n i] .
  have cur: "cursors_on_board s" using n i by (rule init_cursors)
  have m0: "mset (concat (sbox s)) = mset [0..n * n - 1]" using n i by (rule mset_np_arange_square)
  have run: "\<exists>s'. generate_sbox src j (s, t) = Inr (s', t + 3 * nat j) \<and> keeps s s'" for j
    using src ok cur by (rule generate_sbox_keeps)
  have final: "\<exists>w. generate_sbox src iterations (s, t) = Inr w
            \<and> mset (concat (sbox (fst w))) = mset [0..n * n - 1]"
    using run [of iterations] m0 by (auto simp add: keeps_def)
  have mid: "\<exists>w a b. generate_sbox src k (s, t) = Inr w
              \<and> mset (concat (sbox (fst w))) = mset [0..n * n - 1]
              \<and> move_knight src w = Inr a
              \<and> mset (concat (sbox (fst a))) = mset [0..n * n - 1]
              \<and> move_king src a = Inr b
              \<and> mset (concat (sbox (fst b))) = mset [0..n * n - 1]
              \<and> move_bishop src b = generate_sbox src (k + 1) (s, t)"
    if k: "0 \<le> k \<and> k < iterations" for k
  proof -
    from run [of k] obtain s0
      where g: "generate_sbox src k (s, t) = Inr (s0, t + 3 * nat k)" and k0: "keeps s s0" by blast
    from k0 have ok0: "table_ok s0" and cur0: "cursors_on_board s0" by (simp_all add: keeps_def)
    from move_knight_keeps [OF src ok0 cur0] obtain s1
      where m1: "move_knight src (s0, t + 3 * nat k) = Inr (s1, Suc (t + 3 * nat k))"
        and k1: "keeps s0 s1" by blast
    from k1 have ok1: "table_ok s1" and cur1: "cursors_on_board s1" by (simp_all add: keeps_def)
    from move_king_keeps [OF src ok1 cur1] obtain s2
      where m2: "move_king src (s1, Suc (t + 3 * nat k)) = Inr (s2, Suc (Suc (t + 3 * nat k)))"
        and k2: "keeps s1 s2" by blast
    have "generate_sbox src (k + 1) (s, t) = iteration src (s0, t + 3 * nat k)"
      using k g by (intro generate_sbox_next) simp_all
    then have m3: "move_bishop src (s2, Suc (Suc (t + 3 * nat k))) = generate_sbox src (k + 1) (s, t)"
      by (simp add: iteration_def m1 m2)
    have e0: "mset (concat (sbox s0)) = mset [0..n * n - 1]" using k0 m0 by (simp add: keeps_def)
    have e1: "mset (concat (sbox s1)) = mset [0..n * n - 1]" using k1 e0 by (simp add: keeps_def)
    have e2: "mset (concat (sbox s2)) = mset [0..n * n - 1]" using k2 e1 by (simp add: keeps_def)
    show ?thesis using g m1 m2 m3 e0 e1 e2 by simp
  qed
  show ?thesis using i final mid by blast
qed

theorem table_stays_permutation_witness:
  "\<exists>s. init 3 = Inr s
     \<and> (\<exists>w. generate_sbox (\<lambda>t high. int t mod high) 2 (s, 0) = Inr w
            \<and> mset (concat (sbox (fst w))) = mset [0..3 * 3 - 1])
     \<and> (\<exists>w a b. generate_sbox (\<lambda>t high. int t mod high) 1 (s, 0) = Inr w
            \<and> mset (concat (sbox (fst w))) = mset [0..3 * 3 - 1]
            \<and> move_knight (\<lambda>t high. int t mod high) w = Inr a
            \<and> mset (concat (sbox (fst a))) = mset [0..3 * 3 - 1]
            \<and> move_king (\<lambda>t high. int t mod high) a = Inr b
            \<and> mset (concat (sbox (fst b))) = mset [0..3 * 3 - 1]
            \<and> move_bishop (\<lambda>t high. int t mod high) b
                = generate_sbox (\<lambda>t high. int t mod high) (1 + 1) (s, 0))"
proof -
  have n: "(0::int) < 3" by simp
  have r: "rand_ok (\<lambda>t high. int t mod high)" by (simp add: rand_ok_def)
  have k: "(0::int) \<le> 1 \<and> (1::int) < 2" by simp
  from table_stays_permutation [OF n r, of 2 0] k show ?thesis by blast
qed

subsection \<open>Determinism\<close>

text \<open>
  Claim C2. The result of \<open>generate_sbox\<close> is determined by the object it starts from,
  the iteration count and the draws it makes: two random sources that give the same
  answers at the \<open>3 * iterations\<close> calls of the run (three per pass) lead to the same
  result, table and cursors alike, whatever they would answer later. In particular so
  for side 16 and 1000 iterations.
\<close>

theorem generation_deterministic:
  assumes "\<forall>j < 3 * nat iterations. \<forall>high. src1 (t + j) high = src2 (t + j) high"
  shows "generate_sbox src1 iterations (s, t) = generate_sbox src2 iterations (s, t)"
  using assms generate_loop_same_draws [of "nat iterations" src1 "(s, t)" src2]
  by (simp add: generate_sbox_def)

theorem generation_deterministic_witness:
  "\<exists>s. init 16 = Inr s
     \<and> generate_sbox (\<lambda>t high. int t mod high) 1000 (s, 0)
       = generate_sbox (\<lambda>t high. if t < 3000 then int t mod high else 0) 1000 (s, 0)"
proof -
  obtain s where i: "init 16 = Inr s" using init_nonneg [of 16] by simp
  have "generate_sbox (\<lambda>t high. int t mod high) 1000 (s, 0)
       = generate_sbox (\<lambda>t high. if t < 3000 then int t mod high else 0) 1000 (s, 0)"
    by (rule generation_deterministic) simp
  with i show ?thesis by blast
qed

subsection \<open>Failure modes of the walk\<close>

text \<open>
  Claim C4, as the specification has it, says that a negative iteration count is
  rejected. The loop is \<^verbatim>\<open>for _ in range(iterations)\<close> and nothing checks the count:
  with \<open>-1\<close> the method returns the untouched table.
\<close>

theorem negative_iterations_counterexample:
  "generate_sbox (\<lambda>t high. 0) (- 1)
     (\<lparr>box_size = 3, sbox = [[0, 1, 2], [3, 4, 5], [6, 7, 8]],
       king_pos = (0, 0), knight_pos = (1, 1), bishop_pos = (2, 2)\<rparr>, 0)
   = Inr (\<lparr>box_size = 3, sbox = [[0, 1, 2], [3, 4, 5], [6, 7, 8]],
           king_pos = (0, 0), knight_pos = (1, 1), bishop_pos = (2, 2)\<rparr>, 0)"
  by (simp add: generate_sbox_def)

text \<open>
  Claim C4, amended. \<open>generate_sbox\<close> does not reject a negative iteration count: for
  every count below zero it makes no pass and returns the object unchanged, raising
  nothing. On an object built with a positive side, and with a random source that
  keeps its contract, it has no failure mode at all, whatever the count.
\<close>

theorem generate_sbox_never_fails:
  assumes n: "0 < n" and src: "rand_ok src"
  shows "(iterations < 0 \<longrightarrow> generate_sbox src iterations w = Inr w)
       \<and> (\<exists>s. init n = Inr s \<and> (\<exists>w'. generate_sbox src iterations (s, t) = Inr w'))"
proof
  show "iterations < 0 \<longrightarrow> generate_sbox src iterations w = Inr w"
    by (simp add: generate_sbox_def)
  from n obtain s where i: "init n = Inr s" using init_nonneg [of n] by simp
  have "table_ok s" using init_table_ok(1) [OF n i] .
  moreover have "cursors_on_board s" using n i by (rule init_cursors)
  ultimately have "\<exists>w'. generate_sbox src iterations (s, t) = Inr w'"
    using generate_sbox_keeps [OF src, of s iterations t] by blast
  with i show "\<exists>s. init n = Inr s \<and> (\<exists>w'. generate_sbox src iterations (s, t) = Inr w')"
    by blast
qed

theorem generate_sbox_never_fails_witness:
  "generate_sbox (\<lambda>t high. 0) (- 1)
     (\<lparr>box_size = 3, sbox = [[0, 1, 2], [3, 4, 5], [6, 7, 8]],
       king_pos = (0, 0), knight_pos = (1, 1), bishop_pos = (2, 2)\<rparr>, 0)
   = Inr (\<lparr>box_size = 3, sbox = [[0, 1, 2], [3, 4, 5], [6, 7, 8]],
           king_pos = (0, 0), knight_pos = (1, 1), bishop_pos = (2, 2)\<rparr>, 0)
   \<and> (\<exists>s. init 3 = Inr s \<and> (\<exists>w'. generate_sbox (\<lambda>t high. 0) (- 1) (s, 0) = Inr w'))"
proof -
  have "rand_ok (\<lambda>t high. 0)" by (simp add: rand_ok_def)
  from generate_sbox_never_fails [OF _ this, of 3 "- 1"
      "(\<lparr>box_size = 3, sbox = [[0, 1, 2], [3, 4, 5], [6, 7, 8]],
         king_pos = (0, 0), knight_pos = (1, 1), bishop_pos = (2, 2)\<rparr>, 0)" 0]
  show ?thesis by simp
qed

subsection \<open>The table at construction\<close>

text \<open>
  Claim C5. The constructor builds the row-major identity: the cell at \<open>(row, col)\<close>
  holds \<open>row * box_size + col\<close>, so the flattened table is \<open>0, ..., box_size\<^sup>2 - 1\<close>
  in order; and \<open>generate_sbox\<close> with 0 iterations returns the object as it was, with
  no draw made.
\<close>

theorem identity_at_start:
  assumes "0 < n"
  shows "\<exists>s. init n = Inr s
           \<and> (\<forall>row col. 0 \<le> row \<and> row < n \<and> 0 \<le> col \<and> col < n
                 \<longrightarrow> read_cell (sbox s) (row, col) = Inr (row * n + col))
           \<and> concat (sbox s) = [0..n * n - 1]
           \<and> generate_sbox src 0 (s, t) = Inr (s, t)"
proof -
  from assms obtain s where i: "init n = Inr s" using init_nonneg [of n] by simp
  have "read_cell (sbox s) (row, col) = Inr (row * n + col)"
    if "0 \<le> row \<and> row < n \<and> 0 \<le> col \<and> col < n" for row col
    using init_cell [OF assms i, of "(row, col)"] that by (simp add: on_board_def)
  moreover have "concat (sbox s) = [0..n * n - 1]"
    using init_table_ok(3) [OF assms i] by (simp add: np_arange_def)
  moreover have "generate_sbox src 0 (s, t) = Inr (s, t)"
    by (simp add: generate_sbox_def)
  ultimately show ?thesis using i by blast
qed

theorem identity_at_start_witness:
  "\<exists>s. init 3 = Inr s
       \<and> read_cell (sbox s) (1, 2) = Inr (1 * 3 + 2)
       \<and> concat (sbox s) = [0..3 * 3 - 1]
       \<and> generate_sbox (\<lambda>t high. 0) 0 (s, 0) = Inr (s, 0)"
proof -
  have n: "(0::int) < 3" by simp
  have c: "(0::int) \<le> 1 \<and> (1::int) < 3 \<and> (0::int) \<le> 2 \<and> (2::int) < 3" by simp
  from identity_at_start [OF n, of "\<lambda>t high. 0" 0] c show ?thesis by blast
qed

subsection \<open>Sizes of the move sets\<close>

text \<open>
  Claim C6. On a board of positive side, from any position, the knight's move list has
  exactly 8 entries, the king's has exactly 8, and the bishop's has exactly
  \<open>4 * box_size\<close>; nothing is removed from the lists, whatever repeats they hold.
\<close>

theorem move_counts:
  assumes "0 < bs"
  shows "(\<exists>ms. get_knight_moves bs p = Inr ms \<and> length ms = 8)
       \<and> (\<exists>ms. get_king_moves bs p = Inr ms \<and> length ms = 8)
       \<and> int (length (get_bishop_moves bs p)) = 4 * bs"
  using assms
  by (simp add: get_knight_moves_def get_king_moves_def wrap_all_nonzero
      length_knight_targets length_king_targets length_get_bishop_moves)

theorem move_counts_witness:
  "(\<exists>ms. get_knight_moves 3 (1, 1) = Inr ms \<and> length ms = 8)
   \<and> (\<exists>ms. get_king_moves 3 (1, 1) = Inr ms \<and> length ms = 8)
   \<and> int (length (get_bishop_moves 3 (1, 1))) = 4 * 3"
  using move_counts [of 3 "(1, 1)"] by simp

subsection \<open>The bishop's walk\<close>

text \<open>
  Claim C7, as the specification has it, says that the bishop's cumulative walk parts
  from the walk that computes every step from the starting position, as
  \<open>(start + k * direction) mod side_length\<close>, once a step wraps. From the corner
  \<open>(2, 2)\<close> of a board of side 3 the very first step wraps, to \<open>(0, 0)\<close>, and the two
  walks are the same list of twelve positions.
\<close>

theorem bishop_wrapping_counterexample:
  "get_bishop_moves 3 (2, 2)
     = [(0, 0), (1, 1), (2, 2), (0, 1), (1, 0), (2, 2),
        (1, 0), (0, 1), (2, 2), (1, 1), (0, 0), (2, 2)]
   \<and> independent_bishop_moves 3 (2, 2)
     = [(0, 0), (1, 1), (2, 2), (0, 1), (1, 0), (2, 2),
        (1, 0), (0, 1), (2, 2), (1, 1), (0, 0), (2, 2)]"
  by code_simp

text \<open>
  Claim C7, amended. The bishop's generator walks each of the four diagonals
  cumulatively: its first step is the start plus the direction, wrapped, and every
  later step is the previous wrapped point plus the direction, wrapped, each one
  appended. This walk never parts from the one computed step by step from the start as
  \<open>(start + k * direction) mod side_length\<close>: for every side and every position the
  two give the same list.
\<close>

theorem bishop_cumulative_equals_independent:
  "get_bishop_moves n p = independent_bishop_moves n p
   \<and> (\<forall>d k. Suc k < nat n \<longrightarrow>
         bishop_walk (nat n) n d p ! Suc k
           = ((fst (bishop_walk (nat n) n d p ! k) + fst d) mod n,
              (snd (bishop_walk (nat n) n d p ! k) + snd d) mod n))
   \<and> (\<forall>d. 0 < n \<longrightarrow>
         bishop_walk (nat n) n d p ! 0 = ((fst p + fst d) mod n, (snd p + snd d) mod n))"
proof (intro conjI allI impI)
  show "get_bishop_moves n p = independent_bishop_moves n p"
    by (simp only: get_bishop_moves_def independent_bishop_moves_def bishop_walk_independent)
  show "bishop_walk (nat n) n d p ! Suc k
           = ((fst (bishop_walk (nat n) n d p ! k) + fst d) mod n,
              (snd (bishop_walk (nat n) n d p ! k) + snd d) mod n)"
    if "Suc k < nat n" for d k
    using that by (rule bishop_walk_next)
  show "bishop_walk (nat n) n d p ! 0 = ((fst p + fst d) mod n, (snd p + snd d) mod n)"
    if "0 < n" for d
  proof -
    from that obtain m where "nat n = Suc m" by (cases "nat n") auto
    then show ?thesis by (simp only: bishop_walk_first)
  qed
qed

theorem bishop_cumulative_equals_independent_witness:
  "get_bishop_moves 3 (2, 2) = independent_bishop_moves 3 (2, 2)
   \<and> bishop_walk (nat 3) 3 (1, - 1) (2, 2) ! Suc 0
       = ((fst (bishop_walk (nat 3) 3 (1, - 1) (2, 2) ! 0) + 1) mod 3,
          (snd (bishop_walk (nat 3) 3 (1, - 1) (2, 2) ! 0) + - 1) mod 3)
   \<and> bishop_walk (nat 3) 3 (1, - 1) (2, 2) ! 0 = ((2 + 1) mod 3, (2 + - 1) mod 3)"
proof -
  note b = bishop_cumulative_equals_independent [of 3 "(2, 2)"]
  have "Suc 0 < nat 3" and "(0::int) < 3" by simp_all
  with b show ?thesis
    by (metis fst_conv snd_conv)
qed

subsection \<open>Wrapping of coordinates\<close>

text \<open>
  Claim C8. On a board of positive side every coordinate the knight's and the king's
  generators return is the raw target coordinate \<open>v\<close>, negative or not, taken to
  \<open>((v mod side_length) + side_length) mod side_length\<close>, and every step of the
  bishop's walk is the previous point plus the direction taken to the same; so every
  position returned is on the board, both coordinates in \<open>[0, side_length)\<close>.
\<close>

theorem moves_are_wrapped:
  assumes n: "0 < n"
  shows "get_knight_moves n p = Inr (map (spec_wrap_pos n) (knight_targets p))
       \<and> get_king_moves n p = Inr (map (spec_wrap_pos n) (king_targets p))
       \<and> (\<forall>k d cur. bishop_walk (Suc k) n d cur =
             spec_wrap_pos n (fst cur + fst d, snd cur + snd d)
               # bishop_walk k n d (spec_wrap_pos n (fst cur + fst d, snd cur + snd d)))
       \<and> (\<forall>q \<in> set (map (spec_wrap_pos n) (knight_targets p)). on_board n q)
       \<and> (\<forall>q \<in> set (map (spec_wrap_pos n) (king_targets p)). on_board n q)
       \<and> (\<forall>q \<in> set (get_bishop_moves n p). on_board n q)"
proof (intro conjI)
  show "get_knight_moves n p = Inr (map (spec_wrap_pos n) (knight_targets p))"
    using n by (simp add: get_knight_moves_def wrap_all_spec)
  show "get_king_moves n p = Inr (map (spec_wrap_pos n) (king_targets p))"
    using n by (simp add: get_king_moves_def wrap_all_spec)
  show "\<forall>k d cur. bishop_walk (Suc k) n d cur =
             spec_wrap_pos n (fst cur + fst d, snd cur + snd d)
               # bishop_walk k n d (spec_wrap_pos n (fst cur + fst d, snd cur + snd d))"
    using n by (simp add: Let_def spec_wrap_pos_def spec_wrap_mod)
  show "\<forall>q \<in> set (map (spec_wrap_pos n) (knight_targets p)). on_board n q"
    using n by (simp add: spec_wrap_pos_on_board)
  show "\<forall>q \<in> set (map (spec_wrap_pos n) (king_targets p)). on_board n q"
    using n by (simp add: spec_wrap_pos_on_board)
  show "\<forall>q \<in> set (get_bishop_moves n p). on_board n q"
    using n get_bishop_moves_on_board [of n _ p] by blast
qed

theorem moves_are_wrapped_witness:
  "get_knight_moves 3 (0, 0) = Inr (map (spec_wrap_pos 3) (knight_targets (0, 0)))
   \<and> get_king_moves 3 (0, 0) = Inr (map (spec_wrap_pos 3) (king_targets (0, 0)))
   \<and> bishop_walk (Suc 2) 3 (- 1, - 1) (0, 0) =
         spec_wrap_pos 3 (0 + - 1, 0 + - 1)
           # bishop_walk 2 3 (- 1, - 1) (spec_wrap_pos 3 (0 + - 1, 0 + - 1))
   \<and> list_all (on_board 3) (map (spec_wrap_pos 3) (knight_targets (0, 0)))
   \<and> list_all (on_board 3) (map (spec_wrap_pos 3) (king_targets (0, 0)))
   \<and> list_all (on_board 3) (get_bishop_moves 3 (0, 0))"
proof -
  have "(0::int) < 3" by simp
  from moves_are_wrapped [OF this, of "(0, 0)"] show ?thesis
    unfolding list_all_iff by (metis fst_conv snd_conv)
qed

subsection \<open>Swapping two cells\<close>

text \<open>
  Claim C9. On a well-formed table, for two positions on the board, \<open>swap_positions\<close>
  raises nothing, leaves at each of the two positions the value the other one held,
  and leaves every other cell of the table, the shape of the table and the other fields
  of the object as they were; when the two positions are the same the object is
  unchanged.
\<close>

theorem swap_exchanges_two_cells:
  assumes ok: "table_ok s" and p1: "on_board (box_size s) pos1" and p2: "on_board (box_size s) pos2"
  shows "\<exists>s'. swap_positions s pos1 pos2 = Inr s'
           \<and> read_cell (sbox s') pos1 = read_cell (sbox s) pos2
           \<and> read_cell (sbox s') pos2 = read_cell (sbox s) pos1
           \<and> (\<forall>q. on_board (box_size s) q \<and> q \<noteq> pos1 \<and> q \<noteq> pos2
                  \<longrightarrow> read_cell (sbox s') q = read_cell (sbox s) q)
           \<and> s' = s\<lparr>sbox := sbox s'\<rparr>
           \<and> table_ok s'
           \<and> (pos1 = pos2 \<longrightarrow> s' = s)"
proof -
  let ?t = "sbox s"
  let ?t1 = "put ?t pos1 (cell ?t pos2)"
  let ?t2 = "put ?t1 pos2 (cell ?t pos1)"
  have sw: "swap_positions s pos1 pos2 = Inr (s\<lparr>sbox := ?t2\<rparr>)"
    using ok p1 p2 by (rule swap_positions_on_board)
  have ok1: "table_ok (s\<lparr>sbox := ?t1\<rparr>)" using ok by (rule table_ok_put)
  from table_ok_put [OF ok1, of pos2 "cell ?t pos1"]
  have ok2: "table_ok (s\<lparr>sbox := ?t2\<rparr>)" by simp
  have c1: "cell ?t1 q = (if q = pos1 then cell ?t pos2 else cell ?t q)"
    if "on_board (box_size s) q" for q
    using ok p1 that by (rule cell_put)
  have c2: "cell ?t2 q = (if q = pos2 then cell ?t pos1 else cell ?t1 q)"
    if "on_board (box_size s) q" for q
    using cell_put [of "s\<lparr>sbox := ?t1\<rparr>" pos2 q "cell ?t pos1"] ok1 p2 that by simp
  have r: "read_cell ?t2 q = Inr (cell ?t2 q)" if "on_board (box_size s) q" for q
    using read_cell_cell [of "s\<lparr>sbox := ?t2\<rparr>" q] ok2 that by simp
  have r0: "read_cell ?t q = Inr (cell ?t q)" if "on_board (box_size s) q" for q
    using ok that by (rule read_cell_cell)
  have a: "read_cell ?t2 pos1 = read_cell ?t pos2"
    using p1 p2 by (simp add: r r0 c1 c2)
  have b: "read_cell ?t2 pos2 = read_cell ?t pos1"
    using p1 p2 by (simp add: r r0 c1 c2)
  have c: "\<forall>q. on_board (box_size s) q \<and> q \<noteq> pos1 \<and> q \<noteq> pos2
                  \<longrightarrow> read_cell ?t2 q = read_cell ?t q"
    by (simp add: r r0 c1 c2)
  have e: "pos1 = pos2 \<longrightarrow> s\<lparr>sbox := ?t2\<rparr> = s" by (simp add: put_same)
  show ?thesis
    using sw a b c ok2 e by (intro exI [of _ "s\<lparr>sbox := ?t2\<rparr>"]) simp
qed

theorem swap_exchanges_two_cells_witness:
  "\<exists>s'. swap_positions \<lparr>box_size = 3, sbox = [[0, 1, 2], [3, 4, 5], [6, 7, 8]],
              king_pos = (0, 0), knight_pos = (1, 1), bishop_pos = (2, 2)\<rparr> (0, 0) (2, 1) = Inr s'
     \<and> read_cell (sbox s') (0, 0) = Inr 7
     \<and> read_cell (sbox s') (2, 1) = Inr 0
     \<and> read_cell (sbox s') (1, 2) = Inr 5
     \<and> table_ok s'"
proof -
  let ?s = "\<lparr>box_size = 3, sbox = [[0, 1, 2], [3, 4, 5], [6, 7, 8]],
             king_pos = (0, 0), knight_pos = (1, 1), bishop_pos = (2, 2)\<rparr>"
  have ok: "table_ok ?s" by (simp add: table_ok_def)
  have p1: "on_board (box_size ?s) (0, 0)" and p2: "on_board (box_size ?s) (2, 1)"
    and q: "on_board (box_size ?s) (1, 2)"
    by (simp_all add: on_board_def)
  have r: "read_cell (sbox ?s) (2, 1) = Inr 7" "read_cell (sbox ?s) (0, 0) = Inr 0"
    "read_cell (sbox ?s) (1, 2) = Inr 5"
    by (simp_all add: read_cell_def norm_index_def)
  from swap_exchanges_two_cells [OF ok p1 p2] obtain s'
    where "swap_positions ?s (0, 0) (2, 1) = Inr s'"
      and "read_cell (sbox s') (0, 0) = read_cell (sbox ?s) (2, 1)"
      and "read_cell (sbox s') (2, 1) = read_cell (sbox ?s) (0, 0)"
      and "\<forall>q. on_board (box_size ?s) q \<and> q \<noteq> (0, 0) \<and> q \<noteq> (2, 1)
             \<longrightarrow> read_cell (sbox s') q = read_cell (sbox ?s) q"
      and "table_ok s'"
    by blast
  with q r show ?thesis by (intro exI [of _ s']) simp
qed

subsection \<open>Substitution\<close>

text \<open>
  Claim C3, as the specification has it, says that \<open>substitute\<close> fails for every input
  outside \<open>[0, box_size\<^sup>2)\<close>. The method checks nothing itself: its only failure is
  the IndexError of the table access, and that access accepts a negative row. On the
  freshly built table of side 3 the input \<open>-1\<close> is answered with 8.
\<close>

theorem substitute_minus_one_counterexample:
  "init 3 = Inr \<lparr>box_size = 3, sbox = [[0, 1, 2], [3, 4, 5], [6, 7, 8]],
                  king_pos = (0, 0), knight_pos = (1, 1), bishop_pos = (2, 2)\<rparr>
   \<and> substitute \<lparr>box_size = 3, sbox = [[0, 1, 2], [3, 4, 5], [6, 7, 8]],
                  king_pos = (0, 0), knight_pos = (1, 1), bishop_pos = (2, 2)\<rparr> (- 1) = Inr 8"
  by code_simp

text \<open>
  Claim C3, amended. On a well-formed table \<open>substitute\<close> fails with IndexError (the
  out-of-range error of the table access) for every input that is at least
  \<open>box_size\<^sup>2\<close> or less than \<open>-box_size\<^sup>2\<close>; for an input in \<open>[0, box_size\<^sup>2)\<close>
  it returns, without error, the cell at row \<open>input div box_size\<close> and column
  \<open>input mod box_size\<close>. In particular \<open>substitute 256\<close> fails on a table of side 16.
\<close>

theorem substitute_range:
  assumes ok: "table_ok s"
  shows "(box_size s * box_size s \<le> v \<or> v < - (box_size s * box_size s)
            \<longrightarrow> substitute s v = Inl IndexError)
       \<and> (0 \<le> v \<and> v < box_size s * box_size s
            \<longrightarrow> substitute s v = read_cell (sbox s) (v div box_size s, v mod box_size s)
              \<and> substitute s v = Inr (sbox s ! nat (v div box_size s) ! nat (v mod box_size s)))"
proof (intro conjI impI)
  let ?n = "box_size s"
  from ok have n: "0 < ?n" by (simp add: table_ok_def)
  {
    assume "?n * ?n \<le> v \<or> v < - (?n * ?n)"
    then have "?n \<le> v div ?n \<or> v div ?n < - ?n"
      using n div_from_side [of ?n v] div_below_minus_side [of ?n v] by blast
    from read_cell_row_out [OF ok this] show "substitute s v = Inl IndexError"
      using n by (simp add: substitute_def)
  }
  {
    assume "0 \<le> v \<and> v < ?n * ?n"
    show "substitute s v = read_cell (sbox s) (v div ?n, v mod ?n)"
      using n by (simp add: substitute_def)
  }
  {
    assume a: "0 \<le> v \<and> v < ?n * ?n"
    then have "0 \<le> v div ?n" using n by (simp add: pos_imp_zdiv_nonneg_iff)
    moreover have "v div ?n < ?n" using n a div_below_side [of ?n v] by simp
    ultimately have "on_board ?n (v div ?n, v mod ?n)"
      using n by (simp add: on_board_def)
    from read_cell_on_board [OF ok this]
    show "substitute s v = Inr (sbox s ! nat (v div ?n) ! nat (v mod ?n))"
      using n by (simp add: substitute_def)
  }
qed

theorem substitute_range_witness:
  "\<exists>s. init 16 = Inr s
       \<and> substitute s 256 = Inl IndexError
       \<and> substitute s 123 = read_cell (sbox s) (123 div 16, 123 mod 16)
       \<and> substitute s 123 = Inr (sbox s ! nat (123 div 16) ! nat (123 mod 16))"
proof -
  obtain s where i: "init 16 = Inr s" using init_nonneg [of 16] by simp
  have ok: "table_ok s" and bs: "box_size s = 16"
    using init_table_ok [OF _ i] by simp_all
  have a: "substitute s 256 = Inl IndexError"
    using substitute_range [OF ok, of 256] bs by simp
  have b: "substitute s 123 = read_cell (sbox s) (123 div 16, 123 mod 16)"
    and c: "substitute s 123 = Inr (sbox s ! nat (123 div 16) ! nat (123 mod 16))"
    using substitute_range [OF ok, of 123] bs by auto
  show ?thesis using i a b c by blast
qed

text \<open>
  Claim C10. On a well-formed table, for every input \<open>v\<close> in \<open>[-box_size\<^sup>2, 0)\<close>,
  \<open>substitute\<close> raises nothing and returns a value of the table: the cell in row
  \<open>v div box_size + box_size\<close> and column \<open>v mod box_size\<close>, floor division giving a
  negative row, which numpy counts from the end of the table. That is the very cell it
  returns for the input plus \<open>box_size\<^sup>2\<close>.
\<close>

theorem substitute_negative_wraps:
  assumes ok: "table_ok s"
    and lo: "- (box_size s * box_size s) \<le> v" and hi: "v < 0"
  shows "substitute s v
           = Inr (sbox s ! nat (v div box_size s + box_size s) ! nat (v mod box_size s))
       \<and> substitute s (v + box_size s * box_size s)
           = Inr (sbox s ! nat (v div box_size s + box_size s) ! nat (v mod box_size s))
       \<and> sbox s ! nat (v div box_size s + box_size s) ! nat (v mod box_size s)
           \<in> set (concat (sbox s))"
proof -
  let ?n = "box_size s"
  let ?r = "nat (v div ?n + ?n)" and ?c = "nat (v mod ?n)"
  from ok have n: "0 < ?n" by (simp add: table_ok_def)
  have r1: "- ?n \<le> v div ?n" using n lo by (rule div_from_minus_side)
  have r2: "v div ?n < 0" using hi n by (rule div_neg_pos_less0)
  have c1: "0 \<le> v mod ?n" and c2: "v mod ?n < ?n" using n by simp_all
  have neg: "substitute s v = Inr (sbox s ! ?r ! ?c)"
    using n read_cell_row_from_end [OF ok r1 r2 c1 c2] by (simp add: substitute_def)
  have d: "(v + ?n * ?n) div ?n = v div ?n + ?n"
    by (rule div_shift) (use n in simp)
  have m: "(v + ?n * ?n) mod ?n = v mod ?n" by simp
  have "on_board ?n (v div ?n + ?n, v mod ?n)"
    using r1 r2 c1 c2 by (simp add: on_board_def)
  from read_cell_on_board [OF ok this]
  have pos: "substitute s (v + ?n * ?n) = Inr (sbox s ! ?r ! ?c)"
    using n by (simp add: substitute_def d m)
  have rl: "?r < length (sbox s)" using ok r1 r2 by (simp add: table_ok_def)
  then have row: "sbox s ! ?r \<in> set (sbox s)" by (rule nth_mem)
  from rl ok have "length (sbox s ! ?r) = nat ?n" by (simp add: table_ok_def)
  with c1 c2 have "?c < length (sbox s ! ?r)" by simp
  then have "sbox s ! ?r ! ?c \<in> set (sbox s ! ?r)" by (rule nth_mem)
  with row have mem: "sbox s ! ?r ! ?c \<in> set (concat (sbox s))" by auto
  from neg pos mem show ?thesis by blast
qed

theorem substitute_negative_wraps_witness:
  "substitute \<lparr>box_size = 3, sbox = [[0, 1, 2], [3, 4, 5], [6, 7, 8]],
               king_pos = (0, 0), knight_pos = (1, 1), bishop_pos = (2, 2)\<rparr> (- 4) = Inr 5
   \<and> substitute \<lparr>box_size = 3, sbox = [[0, 1, 2], [3, 4, 5], [6, 7, 8]],
               king_pos = (0, 0), knight_pos = (1, 1), bishop_pos = (2, 2)\<rparr> (- 4 + 3 * 3) = Inr 5
   \<and> (5::int) \<in> set (concat [[0, 1, 2], [3, 4, 5], [6, 7, 8]])"
  using substitute_negative_wraps
    [of "\<lparr>box_size = 3, sbox = [[0, 1, 2], [3, 4, 5], [6, 7, 8]],
          king_pos = (0, 0), knight_pos = (1, 1), bishop_pos = (2, 2)\<rparr>" "- 4"]
  by (simp add: table_ok_def)

end
